theory Spec2Isabelle
  imports Main
begin

section \<open>Member cursors and the cursor group\<close>

text \<open>
  A member cursor of \<^verbatim>\<open>ConcatenateIterator\<close> is a random-access iterator into one member
  sequence. It is modelled by its position, an \<open>int\<close>: \<^verbatim>\<open>++it\<close> adds one, \<^verbatim>\<open>it += n\<close> adds
  \<open>n\<close>, \<^verbatim>\<open>a - b\<close> is the difference of the positions and \<^verbatim>\<open>a != b\<close> compares them.
  Positions and the offsets of the jumps are unbounded \<open>int\<close>s. Where the source computes
  a value of \<^verbatim>\<open>difference_type\<close> itself, in \<^verbatim>\<open>minus\<close>, the width of that type is part of
  the model.

  The tuple \<^verbatim>\<open>std::tuple<Iterators...>\<close> is a list of positions, \<^verbatim>\<open>std::get<I>\<close> is \<open>!\<close>,
  and the template parameter \<^verbatim>\<open>I\<close> is a \<open>nat\<close> argument. The arity \<open>N\<close> is the length of
  the list; \<^verbatim>\<open>ConcatenateIterator<>\<close> does not compile, so \<open>N \<ge> 1\<close> in every use.
\<close>

text \<open>
  Dereferencing a member cursor reads the member sequence at the cursor's position.
  Reading outside the sequence is undefined behaviour in the source; the model gives \<open>None\<close>.
\<close>

definition deref_member :: "'a list \<Rightarrow> int \<Rightarrow> 'a option" where
  "deref_member xs p = (if 0 \<le> p \<and> p < int (length xs) then Some (xs ! nat p) else None)"

text \<open>The three private members \<^verbatim>\<open>_iterators\<close>, \<^verbatim>\<open>_begin\<close> and \<^verbatim>\<open>_end\<close>.\<close>

record concat_iterator =
  iterators :: "int list"
  begins :: "int list"
  ends :: "int list"

section \<open>The index-recursive helpers\<close>

text \<open>
  \<^verbatim>\<open>PlusPlus<Tuple, I>\<close>: the recursion starts at \<open>I = 0\<close> and goes up by one, so \<open>I\<close> never
  exceeds the tuple size and the test \<^verbatim>\<open>I == tuple_size\<close> is the test \<open>length its \<le> i\<close>
  on every index that is instantiated.
\<close>

function PlusPlus :: "nat \<Rightarrow> int list \<Rightarrow> int list \<Rightarrow> int list" where
  "PlusPlus i its end_its =
     (if length its \<le> i then its
      else if its ! i \<noteq> end_its ! i then its[i := its ! i + 1]
      else PlusPlus (i + 1) its end_its)"
  by pat_completeness auto
termination
  by (relation "measure (\<lambda>(i, its, end_its). length its - i)") auto

text \<open>
  \<^verbatim>\<open>NotEqual<Tuple, I>\<close>: the base case is the last index, \<^verbatim>\<open>I == tuple_size - 1\<close>
  (again \<open>length its - 1 \<le> i\<close> on the indices that are instantiated).
\<close>

function NotEqual :: "nat \<Rightarrow> int list \<Rightarrow> int list \<Rightarrow> bool" where
  "NotEqual i its end_its =
     (if length its - 1 \<le> i then its ! i \<noteq> end_its ! i
      else (let iterHasValue = (its ! i \<noteq> end_its ! i)
            in if iterHasValue then iterHasValue else NotEqual (i + 1) its end_its))"
  by pat_completeness auto
termination
  by (relation "measure (\<lambda>(i, its, end_its). length its - i)") auto

text \<open>
  \<^verbatim>\<open>Deref<Tuple, I>\<close>; \<open>seqs\<close> holds the member sequences the cursors point into.
\<close>

function Deref :: "nat \<Rightarrow> int list \<Rightarrow> int list \<Rightarrow> 'a list list \<Rightarrow> 'a option" where
  "Deref i its end_its seqs =
     (if length its - 1 \<le> i then deref_member (seqs ! i) (its ! i)
      else if its ! i \<noteq> end_its ! i then deref_member (seqs ! i) (its ! i)
      else Deref (i + 1) its end_its seqs)"
  by pat_completeness auto
termination
  by (relation "measure (\<lambda>(i, its, end_its, seqs). length its - i)") auto

declare PlusPlus.simps [simp del]
declare NotEqual.simps [simp del]
declare Deref.simps [simp del]

text \<open>\<^verbatim>\<open>MinusMinus<Tuple, I>\<close>: recursion from the last index down to \<open>0\<close>.\<close>

fun MinusMinus :: "nat \<Rightarrow> int list \<Rightarrow> int list \<Rightarrow> int list \<Rightarrow> int list" where
  "MinusMinus 0 its begin_its end_its = its[0 := its ! 0 - 1]"
| "MinusMinus (Suc i) its begin_its end_its =
     (if its ! Suc i \<noteq> begin_its ! Suc i then its[Suc i := its ! Suc i - 1]
      else MinusMinus i its begin_its end_its)"

text \<open>
  \<^verbatim>\<open>MinIs<Tuple, I>\<close> and \<^verbatim>\<open>PlusIs<Tuple, I>\<close>, the jumps. They are defined as partial
  functions, with the source's tests as they are written, so that a call that does not
  return has the value \<open>None\<close> and returning is a theorem.
\<close>

partial_function (option) MinIs :: "nat \<Rightarrow> int list \<Rightarrow> int list \<Rightarrow> int list \<Rightarrow> int \<Rightarrow> int list option" where
  "MinIs i its begin_its end_its offset =
     (if i = 0 then Some (its[0 := its ! 0 - offset])
      else (let currentBegin = begin_its ! i; current = its ! i
            in if current = currentBegin then MinIs (i - 1) its begin_its end_its offset
               else (let dist = end_its ! i - current
                     in if dist \<le> offset
                        then MinIs (i - 1) (its[i := begin_its ! i]) begin_its end_its
                               (if dist = 0 then 1 else offset - dist)
                        else Some (its[i := its ! i - offset]))))"

partial_function (option) PlusIs :: "nat \<Rightarrow> int list \<Rightarrow> int list \<Rightarrow> int \<Rightarrow> int list option" where
  "PlusIs i its end_its offset =
     (if i = length its - 1 then Some its
      else (let currentEnd = end_its ! i; dist = currentEnd - its ! i
            in if dist > offset then Some (its[i := its ! i + offset])
               else PlusIs (i + 1) (its[i := its ! i + dist]) end_its (offset - dist)))"

declare MinIs.simps [code]
declare PlusIs.simps [code]

section \<open>The operators of \<^verbatim>\<open>ConcatenateIterator\<close>\<close>

text \<open>
  \<^verbatim>\<open>difference_type\<close>, the common type of the members' difference types, is a signed
  integer type of some width \<open>w\<close> (\<open>64\<close> where it is \<^verbatim>\<open>std::ptrdiff_t\<close>); \<open>fits w x\<close> says that
  \<open>x\<close> is one of its values. A conversion or an addition whose result is not one of them
  is undefined behaviour in the source and \<open>None\<close> here.
\<close>

definition fits :: "nat \<Rightarrow> int \<Rightarrow> bool" where
  "fits w x \<longleftrightarrow> - (2 ^ (w - 1)) \<le> x \<and> x < 2 ^ (w - 1)"

definition static_cast :: "nat \<Rightarrow> int \<Rightarrow> int option" where
  "static_cast w x = (if fits w x then Some x else None)"

definition checked_add :: "nat \<Rightarrow> int option \<Rightarrow> int option \<Rightarrow> int option" where
  "checked_add w acc t =
     (case acc of
        None \<Rightarrow> None
      | Some a \<Rightarrow> (case t of
          None \<Rightarrow> None
        | Some b \<Rightarrow> if fits w (a + b) then Some (a + b) else None))"

text \<open>
  \<^verbatim>\<open>minus\<close>: the array \<^verbatim>\<open>totals\<close> of the member distances, each converted to
  \<^verbatim>\<open>difference_type\<close>, summed from \<open>0\<close> by \<^verbatim>\<open>std::accumulate\<close> in \<^verbatim>\<open>difference_type\<close>.
\<close>

definition minus_its :: "nat \<Rightarrow> concat_iterator \<Rightarrow> concat_iterator \<Rightarrow> int option" where
  "minus_its w this other =
     (let totals = map (\<lambda>i. static_cast w (iterators this ! i - iterators other ! i))
                       [0 ..< length (iterators this)]
      in foldl (checked_add w) (Some 0) totals)"

text \<open>\<^verbatim>\<open>operator*\<close>\<close>

definition op_star :: "concat_iterator \<Rightarrow> 'a list list \<Rightarrow> 'a option" where
  "op_star this seqs = Deref 0 (iterators this) (ends this) seqs"

text \<open>\<^verbatim>\<open>operator++()\<close>\<close>

definition op_inc :: "concat_iterator \<Rightarrow> concat_iterator" where
  "op_inc this = this\<lparr>iterators := PlusPlus 0 (iterators this) (ends this)\<rparr>"

text \<open>\<^verbatim>\<open>operator++(int)\<close>: the pair is (returned copy, \<^verbatim>\<open>*this\<close> afterwards).\<close>

definition op_post_inc :: "concat_iterator \<Rightarrow> concat_iterator \<times> concat_iterator" where
  "op_post_inc this = (let tmp = this in (tmp, op_inc this))"

text \<open>\<^verbatim>\<open>operator--()\<close>\<close>

definition op_dec :: "concat_iterator \<Rightarrow> concat_iterator" where
  "op_dec this =
     this\<lparr>iterators := MinusMinus (length (iterators this) - 1)
                          (iterators this) (begins this) (ends this)\<rparr>"

text \<open>
  \<^verbatim>\<open>operator--(int)\<close>: the body copies \<^verbatim>\<open>*this\<close>, runs \<^verbatim>\<open>++*this\<close> and returns the copy.
\<close>

definition op_post_dec :: "concat_iterator \<Rightarrow> concat_iterator \<times> concat_iterator" where
  "op_post_dec this = (let tmp = this in (tmp, op_inc this))"

text \<open>\<^verbatim>\<open>operator+=\<close> and \<^verbatim>\<open>operator-=\<close>\<close>

definition op_plus_assign :: "concat_iterator \<Rightarrow> int \<Rightarrow> concat_iterator option" where
  "op_plus_assign this offset =
     map_option (\<lambda>r. this\<lparr>iterators := r\<rparr>) (PlusIs 0 (iterators this) (ends this) offset)"

definition op_minus_assign :: "concat_iterator \<Rightarrow> int \<Rightarrow> concat_iterator option" where
  "op_minus_assign this offset =
     map_option (\<lambda>r. this\<lparr>iterators := r\<rparr>)
       (MinIs (length (iterators this) - 1) (iterators this) (begins this) (ends this) offset)"

text \<open>\<^verbatim>\<open>operator-(const ConcatenateIterator&)\<close>\<close>

definition op_distance :: "nat \<Rightarrow> concat_iterator \<Rightarrow> concat_iterator \<Rightarrow> int option" where
  "op_distance w this other = minus_its w this other"

text \<open>\<^verbatim>\<open>operator!=\<close> and \<^verbatim>\<open>operator==\<close>\<close>

definition op_ne :: "concat_iterator \<Rightarrow> concat_iterator \<Rightarrow> bool" where
  "op_ne a b = NotEqual 0 (iterators a) (iterators b)"

definition op_eq :: "concat_iterator \<Rightarrow> concat_iterator \<Rightarrow> bool" where
  "op_eq a b = (\<not> op_ne a b)"

text \<open>
  The iteration of a view from \<open>it\<close> to \<open>last_it\<close>, as a range-based \<^verbatim>\<open>for\<close> runs it:
  \<^verbatim>\<open>for (; it != last; ++it) out.push_back(*it);\<close>. A loop that does not end, or reads
  outside a member sequence, has no result.
\<close>

partial_function (option) collect ::
  "concat_iterator \<Rightarrow> concat_iterator \<Rightarrow> 'a list list \<Rightarrow> 'a list option" where
  "collect it last_it seqs =
     (if op_ne it last_it
      then (case op_star it seqs of
              None \<Rightarrow> None
            | Some v \<Rightarrow> Option.bind (collect (op_inc it) last_it seqs) (\<lambda>vs. Some (v # vs)))
      else Some [])"

declare collect.simps [code]

text \<open>
  The begin-state and the end-state of the view over member sequences \<open>seqs\<close>: member
  \<open>i\<close> runs from position \<open>0\<close> to position \<open>length (seqs ! i)\<close>.
\<close>

definition begin_state :: "'a list list \<Rightarrow> concat_iterator" where
  "begin_state seqs =
     \<lparr>iterators = map (\<lambda>xs. 0) seqs, begins = map (\<lambda>xs. 0) seqs,
      ends = map (\<lambda>xs. int (length xs)) seqs\<rparr>"

definition end_state :: "'a list list \<Rightarrow> concat_iterator" where
  "end_state seqs =
     \<lparr>iterators = map (\<lambda>xs. int (length xs)) seqs, begins = map (\<lambda>xs. 0) seqs,
      ends = map (\<lambda>xs. int (length xs)) seqs\<rparr>"

section \<open>Facts about the helpers\<close>

subsection \<open>Scanning for the first member that is not at its end\<close>

lemma PlusPlus_length: "length (PlusPlus i its es) = length its"
  by (induction i its es rule: PlusPlus.induct) (subst PlusPlus.simps, simp)

lemma PlusPlus_first:
  "i \<le> k \<Longrightarrow> k < length its \<Longrightarrow> (\<forall>j. i \<le> j \<and> j < k \<longrightarrow> its ! j = es ! j) \<Longrightarrow> its ! k \<noteq> es ! k
   \<Longrightarrow> PlusPlus i its es = its[k := its ! k + 1]"
proof (induction i its es rule: PlusPlus.induct)
  case (1 i its es)
  show ?case
  proof (cases "i = k")
    case True
    with 1 show ?thesis by (subst PlusPlus.simps) simp
  next
    case False
    with 1 have lt: "i < k" by simp
    with 1 have eq: "its ! i = es ! i" by simp
    from lt 1 have "PlusPlus (i + 1) its es = its[k := its ! k + 1]"
      by (intro "1.IH") auto
    with lt eq 1 show ?thesis by (subst PlusPlus.simps) simp
  qed
qed



lemma NotEqual_iff:
  "i < length its \<Longrightarrow> NotEqual i its es \<longleftrightarrow> (\<exists>k. i \<le> k \<and> k < length its \<and> its ! k \<noteq> es ! k)"
proof (induction i its es rule: NotEqual.induct)
  case (1 i its es)
  show ?case
  proof (cases "length its - 1 \<le> i")
    case True
    with 1 have i: "i = length its - 1" by simp
    have "(\<exists>k. i \<le> k \<and> k < length its \<and> its ! k \<noteq> es ! k) \<longleftrightarrow> its ! i \<noteq> es ! i"
    proof
      assume "\<exists>k. i \<le> k \<and> k < length its \<and> its ! k \<noteq> es ! k"
      then obtain k where k: "i \<le> k" "k < length its" "its ! k \<noteq> es ! k" by blast
      with i have "k = i" by simp
      with k show "its ! i \<noteq> es ! i" by simp
    next
      assume "its ! i \<noteq> es ! i"
      with 1 show "\<exists>k. i \<le> k \<and> k < length its \<and> its ! k \<noteq> es ! k" by blast
    qed
    with True show ?thesis
      by (subst NotEqual.simps) simp
  next
    case False
    show ?thesis
    proof (cases "its ! i = es ! i")
      case True
      from False have "i + 1 < length its" by simp
      with False True 1 have "NotEqual (i + 1) its es \<longleftrightarrow> (\<exists>k. i + 1 \<le> k \<and> k < length its \<and> its ! k \<noteq> es ! k)"
        by (intro "1.IH") auto
      moreover have "(\<exists>k. i + 1 \<le> k \<and> k < length its \<and> its ! k \<noteq> es ! k) \<longleftrightarrow> (\<exists>k. i \<le> k \<and> k < length its \<and> its ! k \<noteq> es ! k)"
      proof
        assume "\<exists>k. i + 1 \<le> k \<and> k < length its \<and> its ! k \<noteq> es ! k"
        then obtain k where "i + 1 \<le> k" "k < length its" "its ! k \<noteq> es ! k" by blast
        then have "i \<le> k \<and> k < length its \<and> its ! k \<noteq> es ! k" by simp
        then show "\<exists>k. i \<le> k \<and> k < length its \<and> its ! k \<noteq> es ! k" ..
      next
        assume "\<exists>k. i \<le> k \<and> k < length its \<and> its ! k \<noteq> es ! k"
        then obtain k where k: "i \<le> k" "k < length its" "its ! k \<noteq> es ! k" by blast
        with True have "k \<noteq> i" by auto
        with k have "i + 1 \<le> k \<and> k < length its \<and> its ! k \<noteq> es ! k" by simp
        then show "\<exists>k. i + 1 \<le> k \<and> k < length its \<and> its ! k \<noteq> es ! k" ..
      qed
      ultimately show ?thesis using False True by (subst NotEqual.simps) simp
    next
      case neq: False
      with False 1 show ?thesis by (subst NotEqual.simps) (auto simp: Let_def)
    qed
  qed
qed

lemma PlusPlus_step:
  assumes "its \<noteq> []" and "NotEqual 0 its es"
  obtains k where "k < length its" and "\<forall>j<k. its ! j = es ! j" and "its ! k \<noteq> es ! k"
    and "PlusPlus 0 its es = its[k := its ! k + 1]"
proof -
  define P where "P k \<longleftrightarrow> k < length its \<and> its ! k \<noteq> es ! k" for k
  define k where "k = (LEAST k. P k)"
  from assms(1) have "0 < length its" by simp
  from NotEqual_iff [OF this] assms(2) obtain k0 where "k0 < length its \<and> its ! k0 \<noteq> es ! k0"
    by blast
  then have "P k0" by (simp add: P_def)
  then have "P k" unfolding k_def by (rule LeastI)
  then have k: "k < length its" "its ! k \<noteq> es ! k" by (simp_all add: P_def)
  have below: "its ! j = es ! j" if "j < k" for j
  proof -
    from that have "\<not> P j" unfolding k_def by (rule not_less_Least)
    moreover from that k have "j < length its" by simp
    ultimately show ?thesis by (simp add: P_def)
  qed
  have "PlusPlus 0 its es = its[k := its ! k + 1]"
    using k below by (intro PlusPlus_first) simp_all
  with k below show thesis by (intro that [of k]) simp_all
qed

lemma Deref_skip:
  "i \<le> k \<Longrightarrow> k < length its \<Longrightarrow> (\<forall>j. i \<le> j \<and> j < k \<longrightarrow> its ! j = es ! j)
   \<Longrightarrow> Deref i its es seqs = Deref k its es seqs"
proof (induction i its es seqs rule: Deref.induct)
  case (1 i its es seqs)
  show ?case
  proof (cases "i = k")
    case True
    then show ?thesis by simp
  next
    case False
    with 1 have lt: "i < k" by simp
    with 1 have eq: "its ! i = es ! i" and inside: "\<not> length its - 1 \<le> i" by simp_all
    from lt 1 have "Deref (i + 1) its es seqs = Deref k its es seqs"
      by (intro "1.IH") auto
    with inside eq show ?thesis by (subst Deref.simps) simp
  qed
qed

lemma Deref_at:
  "its ! k \<noteq> es ! k \<or> k = length its - 1 \<Longrightarrow> Deref k its es seqs = deref_member (seqs ! k) (its ! k)"
  by (subst Deref.simps) auto

lemma Deref_first:
  assumes "k < length its" and "\<forall>j<k. its ! j = es ! j"
    and "its ! k \<noteq> es ! k \<or> k = length its - 1"
  shows "Deref 0 its es seqs = deref_member (seqs ! k) (its ! k)"
proof -
  from assms(1,2) have "Deref 0 its es seqs = Deref k its es seqs"
    by (intro Deref_skip) auto
  also from assms(3) have "\<dots> = deref_member (seqs ! k) (its ! k)"
    by (rule Deref_at)
  finally show ?thesis .
qed

subsection \<open>The step on the whole cursor\<close>

lemma ends_op_inc: "ends (op_inc c) = ends c"
  by (simp add: op_inc_def)

lemma begins_op_inc: "begins (op_inc c) = begins c"
  by (simp add: op_inc_def)

lemma iterators_op_inc: "iterators (op_inc c) = PlusPlus 0 (iterators c) (ends c)"
  by (simp add: op_inc_def)

lemma ends_funpow_op_inc: "ends ((op_inc ^^ n) c) = ends c"
  by (induction n) (simp_all add: ends_op_inc)

lemma length_funpow_op_inc: "length (iterators ((op_inc ^^ n) c)) = length (iterators c)"
  by (induction n) (simp_all add: iterators_op_inc PlusPlus_length)

subsection \<open>Sums of positions\<close>

lemma sum_list_update_int:
  "k < length xs \<Longrightarrow> sum_list (xs[k := x]) = sum_list xs + x - xs ! k" for x :: int
  by (induction xs arbitrary: k) (auto split: nat.splits)

lemma sum_list_PlusPlus:
  assumes "its \<noteq> []" and "NotEqual 0 its es"
  shows "sum_list (PlusPlus 0 its es) = sum_list its + 1"
proof -
  from assms obtain k where "k < length its" "PlusPlus 0 its es = its[k := its ! k + 1]"
    by (rule PlusPlus_step)
  then show ?thesis by (simp add: sum_list_update_int)
qed

lemma list_all2_le_sum_list:
  "list_all2 (\<le>) xs ys \<Longrightarrow> sum_list xs \<le> sum_list ys" for xs :: "int list"
  by (induction xs ys rule: list_all2_induct) simp_all

lemma list_all2_le_sum_eq:
  "list_all2 (\<le>) xs ys \<Longrightarrow> sum_list xs = sum_list ys \<Longrightarrow> xs = ys" for xs :: "int list"
proof (induction xs ys rule: list_all2_induct)
  case Nil
  show ?case by simp
next
  case (Cons x xs y ys)
  from Cons.hyps(2) have "sum_list xs \<le> sum_list ys" by (rule list_all2_le_sum_list)
  with Cons.hyps(1) Cons.prems have "x = y" "sum_list xs = sum_list ys" by simp_all
  with Cons.IH show ?case by simp
qed

subsection \<open>Stepping from the begin positions to the end positions\<close>

lemma exhaustion_invariant:
  assumes len: "length bs = length es" and ne: "bs \<noteq> []" and le: "list_all2 (\<le>) bs es"
    and j: "j \<le> nat (sum_list es - sum_list bs)"
  shows "list_all2 (\<le>) (iterators ((op_inc ^^ j) \<lparr>iterators = bs, begins = bs, ends = es\<rparr>)) es
       \<and> sum_list (iterators ((op_inc ^^ j) \<lparr>iterators = bs, begins = bs, ends = es\<rparr>))
           = sum_list bs + int j"
  using j
proof (induction j)
  case 0
  from le show ?case by simp
next
  case (Suc j)
  let ?c = "(op_inc ^^ j) \<lparr>iterators = bs, begins = bs, ends = es\<rparr>"
  let ?its = "iterators ?c"
  from Suc have all2: "list_all2 (\<le>) ?its es" and total: "sum_list ?its = sum_list bs + int j"
    by simp_all
  have e: "ends ?c = es" by (simp add: ends_funpow_op_inc)
  from all2 have leni: "length ?its = length es" by (rule list_all2_lengthD)
  with len ne have nonempty: "?its \<noteq> []" by auto
  from Suc.prems total have "sum_list ?its \<noteq> sum_list es" by simp
  then have "?its \<noteq> es" by auto
  with leni have "\<exists>k<length ?its. ?its ! k \<noteq> es ! k" by (auto simp: list_eq_iff_nth_eq)
  with nonempty have "NotEqual 0 ?its es" by (simp add: NotEqual_iff)
  with nonempty obtain k where k: "k < length ?its" "?its ! k \<noteq> es ! k"
    and step: "PlusPlus 0 ?its es = ?its[k := ?its ! k + 1]"
    by (rule PlusPlus_step)
  from all2 k(1) have "?its ! k \<le> es ! k" by (simp add: list_all2_conv_all_nth)
  with k(2) have "?its ! k + 1 \<le> es ! k" by simp
  with all2 k(1) have "list_all2 (\<le>) (?its[k := ?its ! k + 1]) es"
    by (simp add: list_all2_conv_all_nth nth_list_update)
  moreover from k(1) have "sum_list (?its[k := ?its ! k + 1]) = sum_list ?its + 1"
    by (simp add: sum_list_update_int)
  ultimately show ?case using step total e by (simp add: iterators_op_inc)
qed

lemma exhaustion_general:
  assumes len: "length bs = length es" and ne: "bs \<noteq> []" and le: "list_all2 (\<le>) bs es"
  shows "op_eq ((op_inc ^^ nat (sum_list es - sum_list bs)) \<lparr>iterators = bs, begins = bs, ends = es\<rparr>)
               \<lparr>iterators = es, begins = bs, ends = es\<rparr>"
    and "j < nat (sum_list es - sum_list bs) \<Longrightarrow>
         op_ne ((op_inc ^^ j) \<lparr>iterators = bs, begins = bs, ends = es\<rparr>)
               \<lparr>iterators = es, begins = bs, ends = es\<rparr>"
proof -
  let ?c0 = "\<lparr>iterators = bs, begins = bs, ends = es\<rparr>"
  let ?n = "nat (sum_list es - sum_list bs)"
  from le have sums: "sum_list bs \<le> sum_list es" by (rule list_all2_le_sum_list)
  have inv: "list_all2 (\<le>) (iterators ((op_inc ^^ j) ?c0)) es
       \<and> sum_list (iterators ((op_inc ^^ j) ?c0)) = sum_list bs + int j" if "j \<le> ?n" for j
    using len ne le that by (rule exhaustion_invariant)
  have nonempty: "iterators ((op_inc ^^ j) ?c0) \<noteq> []" for j
    using length_funpow_op_inc [of j ?c0] ne by auto
  from inv [of ?n] sums have "iterators ((op_inc ^^ ?n) ?c0) = es"
    by (intro list_all2_le_sum_eq) simp_all
  then have "\<not> NotEqual 0 (iterators ((op_inc ^^ ?n) ?c0)) es"
    using nonempty [of ?n] by (simp add: NotEqual_iff)
  then show "op_eq ((op_inc ^^ ?n) ?c0) \<lparr>iterators = es, begins = bs, ends = es\<rparr>"
    by (simp add: op_eq_def op_ne_def)
  assume j: "j < ?n"
  let ?its = "iterators ((op_inc ^^ j) ?c0)"
  from j inv [of j] have "sum_list ?its \<noteq> sum_list es" by simp
  then have "?its \<noteq> es" by auto
  moreover have "length ?its = length es" using len by (simp add: length_funpow_op_inc)
  ultimately have "\<exists>k<length ?its. ?its ! k \<noteq> es ! k" by (auto simp: list_eq_iff_nth_eq)
  with nonempty [of j] have "NotEqual 0 ?its es" by (simp add: NotEqual_iff)
  then show "op_ne ((op_inc ^^ j) ?c0) \<lparr>iterators = es, begins = bs, ends = es\<rparr>"
    by (simp add: op_ne_def)
qed

subsection \<open>The distance in \<^verbatim>\<open>difference_type\<close>\<close>

lemma fits_zero: "fits w 0"
  by (simp add: fits_def)

lemma foldl_checked_add_None: "foldl (checked_add w) None ts = None"
  by (induction ts) (simp_all add: checked_add_def)

lemma foldl_checked_add:
  "foldl (checked_add w) (Some a) (map (static_cast w) ts)
     = (if \<forall>n<length ts. fits w (ts ! n) \<and> fits w (a + sum_list (take (Suc n) ts))
        then Some (a + sum_list ts) else None)"
proof (induction ts arbitrary: a)
  case Nil
  show ?case by simp
next
  case (Cons t ts)
  show ?case
  proof (cases "fits w t \<and> fits w (a + t)")
    case True
    then have "checked_add w (Some a) (static_cast w t) = Some (a + t)"
      by (simp add: checked_add_def static_cast_def)
    then have "foldl (checked_add w) (Some a) (map (static_cast w) (t # ts))
        = foldl (checked_add w) (Some (a + t)) (map (static_cast w) ts)" by simp
    also have "\<dots> = (if \<forall>n<length ts. fits w (ts ! n) \<and> fits w (a + t + sum_list (take (Suc n) ts))
        then Some (a + t + sum_list ts) else None)" by (rule Cons.IH)
    finally show ?thesis using True by (simp add: All_less_Suc2 add.assoc)
  next
    case False
    then have "checked_add w (Some a) (static_cast w t) = None"
      by (auto simp: checked_add_def static_cast_def)
    then have "foldl (checked_add w) (Some a) (map (static_cast w) (t # ts)) = None"
      by (simp add: foldl_checked_add_None)
    moreover from False
    have "\<not> (\<forall>n<length (t # ts). fits w ((t # ts) ! n) \<and> fits w (a + sum_list (take (Suc n) (t # ts))))"
      by (auto simp: All_less_Suc2)
    ultimately show ?thesis by simp
  qed
qed

lemma sum_list_take_map_upt:
  "n < m \<Longrightarrow> sum_list (take (Suc n) (map f [0..<m])) = (\<Sum>i\<le>n. f i)" for f :: "nat \<Rightarrow> int"
proof -
  assume "n < m"
  then have "take (Suc n) (map f [0..<m]) = map f [0..<Suc n]"
    by (simp add: take_map)
  then show ?thesis
    by (simp only: interv_sum_list_conv_sum_set_nat atLeast0LessThan lessThan_Suc_atMost set_upt)
qed

lemma minus_its_char:
  "minus_its w a b
     = (if \<forall>n<length (iterators a).
              fits w (iterators a ! n - iterators b ! n)
            \<and> fits w (\<Sum>i\<le>n. iterators a ! i - iterators b ! i)
        then Some (\<Sum>i<length (iterators a). iterators a ! i - iterators b ! i) else None)"
proof -
  let ?f = "\<lambda>i. iterators a ! i - iterators b ! i"
  let ?N = "length (iterators a)"
  have "minus_its w a b = foldl (checked_add w) (Some 0) (map (static_cast w) (map ?f [0..<?N]))"
    by (simp add: minus_its_def comp_def)
  also have "\<dots> = (if \<forall>n<length (map ?f [0..<?N]).
          fits w (map ?f [0..<?N] ! n) \<and> fits w (0 + sum_list (take (Suc n) (map ?f [0..<?N])))
        then Some (0 + sum_list (map ?f [0..<?N])) else None)"
    by (rule foldl_checked_add)
  also have "\<dots> = (if \<forall>n<?N. fits w (?f n) \<and> fits w (\<Sum>i\<le>n. ?f i)
        then Some (\<Sum>i<?N. ?f i) else None)"
    by (simp add: sum_list_take_map_upt interv_sum_list_conv_sum_set_nat atLeast0LessThan
        del: take_Suc_conv_app_nth)
  finally show ?thesis .
qed

lemma PlusPlus_ge: "its ! j \<le> PlusPlus i its es ! j"
proof (induction i its es rule: PlusPlus.induct)
  case (1 i its es)
  show ?case
  proof (cases "length its \<le> i")
    case True
    then show ?thesis by (subst PlusPlus.simps) simp
  next
    case outer: False
    show ?thesis
    proof (cases "its ! i \<noteq> es ! i")
      case True
      with outer have "PlusPlus i its es = its[i := its ! i + 1]" by (subst PlusPlus.simps) simp
      with outer show ?thesis by (cases "j = i") simp_all
    next
      case False
      with outer 1 have "its ! j \<le> PlusPlus (i + 1) its es ! j" by simp
      with outer False show ?thesis by (subst PlusPlus.simps) simp
    qed
  qed
qed

lemma funpow_op_inc_ge: "iterators b ! i \<le> iterators ((op_inc ^^ n) b) ! i"
proof (induction n)
  case 0
  show ?case by simp
next
  case (Suc n)
  have "iterators ((op_inc ^^ n) b) ! i \<le> iterators ((op_inc ^^ Suc n) b) ! i"
    by (simp add: iterators_op_inc PlusPlus_ge)
  with Suc show ?case by simp
qed

lemma sum_nth_sum_list: "(\<Sum>i<length xs. xs ! i) = sum_list xs" for xs :: "int list"
  by (simp add: sum_list_sum_nth atLeast0LessThan)

lemma partial_sums_bounded:
  fixes f :: "nat \<Rightarrow> int"
  assumes "\<forall>i<m. 0 \<le> f i" and "n < m"
  shows "0 \<le> f n \<and> f n \<le> (\<Sum>i\<le>n. f i) \<and> (\<Sum>i\<le>n. f i) \<le> (\<Sum>i<m. f i)"
proof -
  from assms have "0 \<le> f n" by simp
  moreover have "f n \<le> (\<Sum>i\<le>n. f i)"
    using assms by (intro member_le_sum) auto
  moreover have "(\<Sum>i\<le>n. f i) \<le> (\<Sum>i<m. f i)"
    using assms by (intro sum_mono2) auto
  ultimately show ?thesis by simp
qed

lemma sum_diff_swap: "(\<Sum>i\<in>A. g i - h i) = - (\<Sum>i\<in>A. h i - g i)" for g h :: "nat \<Rightarrow> int"
  by (simp add: sum_subtractf)

text \<open>
  Two counting cursors \<open>2^63 - 1\<close> and \<open>1\<close> positions past their begins: the sum of the
  member distances is not a value of a 64-bit \<^verbatim>\<open>difference_type\<close>.
\<close>

lemma minus_its_overflow:
  "op_distance 64 \<lparr>iterators = [2 ^ 63 - 1, 1], begins = [0, 0], ends = [2 ^ 63 - 1, 1]\<rparr>
                  \<lparr>iterators = [0, 0], begins = [0, 0], ends = [2 ^ 63 - 1, 1]\<rparr> = None"
  by (simp add: op_distance_def minus_its_def checked_add_def static_cast_def fits_def)

subsection \<open>The jumps return\<close>

lemma PlusIs_returns:
  "n = length its - 1 - i \<Longrightarrow> i \<le> length its - 1 \<Longrightarrow> \<exists>r. PlusIs i its es offset = Some r"
proof (induction n arbitrary: i its offset)
  case 0
  then have "i = length its - 1" by simp
  then show ?case by (subst PlusIs.simps) simp
next
  case (Suc n)
  then have ne: "i \<noteq> length its - 1" by simp
  let ?dist = "es ! i - its ! i"
  let ?its = "its[i := its ! i + ?dist]"
  from Suc.prems have "n = length ?its - 1 - (i + 1)" "i + 1 \<le> length ?its - 1" by simp_all
  then have "\<exists>r. PlusIs (i + 1) ?its es (offset - ?dist) = Some r" by (rule Suc.IH)
  with ne show ?case by (subst PlusIs.simps) (simp add: Let_def)
qed

lemma MinIs_returns: "\<exists>r. MinIs i its bs es offset = Some r"
proof (induction i arbitrary: its offset)
  case 0
  show ?case by (subst MinIs.simps) simp
next
  case (Suc i)
  have a: "\<exists>r. MinIs i its bs es offset = Some r" by (rule Suc.IH)
  have b: "\<exists>r. MinIs i (its[Suc i := bs ! Suc i]) bs es
                 (if es ! Suc i - its ! Suc i = 0 then 1 else offset - (es ! Suc i - its ! Suc i)) = Some r"
    by (rule Suc.IH)
  from a b show ?case by (subst MinIs.simps) (simp add: Let_def)
qed

section \<open>Equality of composite cursors\<close>

text \<open>
  C7. For two composite cursors of the same arity \<open>N \<ge> 1\<close>, \<^verbatim>\<open>operator==\<close> holds if and
  only if the member cursors are equal at every index, and \<^verbatim>\<open>operator!=\<close> is its negation:
  the left-to-right scan of \<^verbatim>\<open>NotEqual\<close>, which stops at the first difference and compares
  the last member unconditionally, decides nothing else.
\<close>

theorem eq_iff_pairwise:
  assumes len: "length (iterators a) = length (iterators b)" and ne: "iterators a \<noteq> []"
  shows "(op_eq a b \<longleftrightarrow> (\<forall>i<length (iterators a). iterators a ! i = iterators b ! i))
       \<and> (op_ne a b \<longleftrightarrow> \<not> op_eq a b)"
proof -
  from ne have "0 < length (iterators a)" by simp
  then have "NotEqual 0 (iterators a) (iterators b)
      \<longleftrightarrow> (\<exists>k. 0 \<le> k \<and> k < length (iterators a) \<and> iterators a ! k \<noteq> iterators b ! k)"
    by (rule NotEqual_iff)
  then show ?thesis unfolding op_eq_def op_ne_def by blast
qed

theorem eq_iff_pairwise_witness:
  "op_eq \<lparr>iterators = [2, 1], begins = [0, 0], ends = [2, 3]\<rparr>
         \<lparr>iterators = [2, 1], begins = [0, 0], ends = [2, 3]\<rparr>
   \<and> op_ne \<lparr>iterators = [2, 1], begins = [0, 0], ends = [2, 3]\<rparr>
           \<lparr>iterators = [2, 3], begins = [0, 0], ends = [2, 3]\<rparr>"
  using eq_iff_pairwise [of "\<lparr>iterators = [2, 1], begins = [0, 0], ends = [2, 3]\<rparr>"
                            "\<lparr>iterators = [2, 1], begins = [0, 0], ends = [2, 3]\<rparr>"]
        eq_iff_pairwise [of "\<lparr>iterators = [2, 1], begins = [0, 0], ends = [2, 3]\<rparr>"
                            "\<lparr>iterators = [2, 3], begins = [0, 0], ends = [2, 3]\<rparr>"]
  by (simp add: less_Suc_eq all_conj_distrib numeral_2_eq_2)

section \<open>Dereference\<close>

text \<open>
  C6. A composite cursor that differs from the end-state (the cursor whose positions are
  \<^verbatim>\<open>_end\<close>) has a first index \<open>k\<close>, counting from \<open>0\<close>, whose member is not at its end, and
  \<^verbatim>\<open>operator*\<close> returns what member \<open>k\<close> dereferences to. When every member before the last
  is at its end, \<^verbatim>\<open>operator*\<close> dereferences the last member, whether or not it is at its
  end.
\<close>

theorem deref_first_non_end:
  assumes "iterators c \<noteq> []"
  shows "(op_ne c (c\<lparr>iterators := ends c\<rparr>) \<longrightarrow>
            (\<exists>k<length (iterators c).
                (\<forall>j<k. iterators c ! j = ends c ! j) \<and> iterators c ! k \<noteq> ends c ! k
              \<and> op_star c seqs = deref_member (seqs ! k) (iterators c ! k)))
       \<and> ((\<forall>j<length (iterators c) - 1. iterators c ! j = ends c ! j) \<longrightarrow>
            op_star c seqs
              = deref_member (seqs ! (length (iterators c) - 1))
                  (iterators c ! (length (iterators c) - 1)))"
proof (intro conjI impI)
  assume "op_ne c (c\<lparr>iterators := ends c\<rparr>)"
  then have "NotEqual 0 (iterators c) (ends c)" by (simp add: op_ne_def)
  with assms obtain k where k: "k < length (iterators c)"
      "\<forall>j<k. iterators c ! j = ends c ! j" "iterators c ! k \<noteq> ends c ! k"
    by (rule PlusPlus_step)
  then have "op_star c seqs = deref_member (seqs ! k) (iterators c ! k)"
    unfolding op_star_def by (intro Deref_first) simp_all
  with k show "\<exists>k<length (iterators c).
      (\<forall>j<k. iterators c ! j = ends c ! j) \<and> iterators c ! k \<noteq> ends c ! k
      \<and> op_star c seqs = deref_member (seqs ! k) (iterators c ! k)"
    by blast
next
  assume "\<forall>j<length (iterators c) - 1. iterators c ! j = ends c ! j"
  with assms show "op_star c seqs
      = deref_member (seqs ! (length (iterators c) - 1)) (iterators c ! (length (iterators c) - 1))"
    unfolding op_star_def by (intro Deref_first) simp_all
qed

theorem deref_first_non_end_witness:
  "op_star \<lparr>iterators = [2, 1], begins = [0, 0], ends = [2, 3]\<rparr> [[10, 20], [30, 40, 50 :: nat]]
     = Some 40
   \<and> op_star \<lparr>iterators = [2, 3], begins = [0, 0], ends = [2, 3]\<rparr> [[10, 20], [30, 40, 50 :: nat]]
     = None"
proof -
  let ?c = "\<lparr>iterators = [2, 1], begins = [0, 0], ends = [2, 3]\<rparr>"
  let ?e = "\<lparr>iterators = [2, 3], begins = [0, 0], ends = [2, 3]\<rparr>"
  let ?seqs = "[[10, 20], [30, 40, 50 :: nat]]"
  have ne: "op_ne ?c (?c\<lparr>iterators := ends ?c\<rparr>)"
    by (simp add: op_ne_def NotEqual.simps)
  have "iterators ?c \<noteq> []" by simp
  from deref_first_non_end [OF this, of ?seqs] ne
  obtain k where "k < length (iterators ?c)" "\<forall>j<k. iterators ?c ! j = ends ?c ! j"
      "iterators ?c ! k \<noteq> ends ?c ! k"
      "op_star ?c ?seqs = deref_member (?seqs ! k) (iterators ?c ! k)"
    by blast
  then have first: "op_star ?c ?seqs = Some 40"
    by (cases k) (simp_all add: deref_member_def)
  have all_end: "\<forall>j<length (iterators ?e) - 1. iterators ?e ! j = ends ?e ! j" by simp
  have "iterators ?e \<noteq> []" by simp
  from deref_first_non_end [OF this, of ?seqs] all_end
  have "op_star ?e ?seqs = None" by (simp add: deref_member_def)
  with first show ?thesis by simp
qed

section \<open>Exhausted members\<close>




section \<open>Number of steps from begin to end\<close>

text \<open>
  C3. Over \<open>N \<ge> 1\<close> member sequences of lengths \<open>L0 .. L(N-1)\<close>, the cursor reached from
  the begin-state by \<open>L0 + \<dots> + L(N-1)\<close> \<^verbatim>\<open>operator++\<close> equals the end-state, and every
  cursor reached by fewer steps differs from it.
\<close>

theorem concat_exhaustion_count:
  assumes "seqs \<noteq> []"
  shows "op_eq ((op_inc ^^ sum_list (map length seqs)) (begin_state seqs)) (end_state seqs)
       \<and> (\<forall>j < sum_list (map length seqs).
            op_ne ((op_inc ^^ j) (begin_state seqs)) (end_state seqs))"
proof -
  let ?bs = "map (\<lambda>xs. 0 :: int) seqs" and ?es = "map (\<lambda>xs. int (length xs)) seqs"
  have len: "length ?bs = length ?es" by simp
  from assms have ne: "?bs \<noteq> []" by simp
  have le: "list_all2 (\<le>) ?bs ?es" by (simp add: list_all2_conv_all_nth)
  have "sum_list ?bs = 0" by (induction seqs) simp_all
  moreover have "sum_list ?es = int (sum_list (map length seqs))" by (induction seqs) simp_all
  ultimately have n: "nat (sum_list ?es - sum_list ?bs) = sum_list (map length seqs)" by simp
  from exhaustion_general(1) [OF len ne le] exhaustion_general(2) [OF len ne le] n
  show ?thesis by (simp add: begin_state_def end_state_def)
qed

theorem concat_exhaustion_count_witness:
  "op_eq ((op_inc ^^ 5) (begin_state [[10, 20], [30, 40, 50 :: nat]]))
         (end_state [[10, 20], [30, 40, 50 :: nat]])
   \<and> op_ne ((op_inc ^^ 4) (begin_state [[10, 20], [30, 40, 50 :: nat]]))
           (end_state [[10, 20], [30, 40, 50 :: nat]])"
proof -
  let ?seqs = "[[10, 20], [30, 40, 50 :: nat]]"
  have h: "?seqs \<noteq> []" by simp
  have n: "sum_list (map length ?seqs) = 5" by simp
  note t = concat_exhaustion_count [OF h, unfolded n]
  from t have "op_eq ((op_inc ^^ 5) (begin_state ?seqs)) (end_state ?seqs)" by (rule conjunct1)
  moreover from t have "\<forall>j<5. op_ne ((op_inc ^^ j) (begin_state ?seqs)) (end_state ?seqs)"
    by (rule conjunct2)
  then have "op_ne ((op_inc ^^ 4) (begin_state ?seqs)) (end_state ?seqs)" by simp
  ultimately show ?thesis by (rule conjI)
qed

section \<open>Order of the concatenation\<close>

text \<open>
  C4. Over the two member sequences \<open>[x, y]\<close> and \<open>[p, q, r]\<close>, dereferencing and stepping
  forward from the begin-state until the cursor equals the end-state yields
  \<open>x, y, p, q, r\<close>, in that order.
\<close>

theorem concat_ordering:
  "collect (begin_state [[x, y], [p, q, r]]) (end_state [[x, y], [p, q, r]])
     [[x, y], [p, q, r]] = Some [x, y, p, q, r]"
  by (simp add: collect.simps begin_state_def end_state_def op_ne_def op_star_def op_inc_def
      deref_member_def PlusPlus.simps NotEqual.simps Deref.simps)

section \<open>Distance\<close>

text \<open>
  C8. With \<^verbatim>\<open>difference_type\<close> of width \<open>w\<close>, \<^verbatim>\<open>x - y\<close> is the sum over the member indices
  of the differences of the member positions, whenever every member difference and every
  partial sum is a value of \<^verbatim>\<open>difference_type\<close> (and has no value otherwise). When \<open>d\<close>
  steps \<^verbatim>\<open>operator++\<close> are taken from \<open>b\<close>, each from a cursor that differs from the
  end-state, and \<open>d\<close> is a value of \<^verbatim>\<open>difference_type\<close>, the cursor \<open>a\<close> they reach has
  \<^verbatim>\<open>a - b == d\<close> and \<^verbatim>\<open>b - a == -d\<close>.
\<close>

theorem distance_consistency:
  assumes "iterators b \<noteq> []"
    and "\<forall>j<d. op_ne ((op_inc ^^ j) b) (b\<lparr>iterators := ends b\<rparr>)"
    and "int d < 2 ^ (w - 1)"
  shows "op_distance w x y
           = (if \<forall>n<length (iterators x).
                    fits w (iterators x ! n - iterators y ! n)
                  \<and> fits w (\<Sum>i\<le>n. iterators x ! i - iterators y ! i)
              then Some (\<Sum>i<length (iterators x). iterators x ! i - iterators y ! i)
              else None)
       \<and> op_distance w ((op_inc ^^ d) b) b = Some (int d)
       \<and> op_distance w b ((op_inc ^^ d) b) = Some (- int d)"
proof -
  let ?a = "(op_inc ^^ d) b"
  let ?N = "length (iterators b)"
  let ?f = "\<lambda>i. iterators ?a ! i - iterators b ! i"
  have total: "sum_list (iterators ((op_inc ^^ n) b)) = sum_list (iterators b) + int n"
    if "n \<le> d" for n
    using that
  proof (induction n)
    case 0
    show ?case by simp
  next
    case (Suc n)
    let ?c = "(op_inc ^^ n) b"
    from Suc.prems assms(2) have "op_ne ?c (b\<lparr>iterators := ends b\<rparr>)" by simp
    then have ne: "NotEqual 0 (iterators ?c) (ends ?c)"
      by (simp add: op_ne_def ends_funpow_op_inc)
    from assms(1) have "iterators ?c \<noteq> []"
      using length_funpow_op_inc [of n b] by auto
    then have "sum_list (PlusPlus 0 (iterators ?c) (ends ?c)) = sum_list (iterators ?c) + 1"
      using ne by (rule sum_list_PlusPlus)
    with Suc show ?case by (simp add: iterators_op_inc)
  qed
  have len: "length (iterators ?a) = ?N" by (rule length_funpow_op_inc)
  have "(\<Sum>i<?N. ?f i) = (\<Sum>i<?N. iterators ?a ! i) - (\<Sum>i<?N. iterators b ! i)"
    by (simp add: sum_subtractf)
  also have "(\<Sum>i<?N. iterators ?a ! i) = sum_list (iterators ?a)"
    using sum_nth_sum_list [of "iterators ?a"] len by simp
  also have "(\<Sum>i<?N. iterators b ! i) = sum_list (iterators b)"
    by (rule sum_nth_sum_list)
  finally have sum_f: "(\<Sum>i<?N. ?f i) = int d" using total [of d] by simp
  have nonneg: "\<forall>i<?N. 0 \<le> ?f i" by (simp add: funpow_op_inc_ge)
  have bounds: "0 \<le> ?f n \<and> ?f n \<le> (\<Sum>i\<le>n. ?f i) \<and> (\<Sum>i\<le>n. ?f i) \<le> int d" if "n < ?N" for n
    using partial_sums_bounded [OF nonneg that] sum_f by simp
  have pos: "(0::int) < 2 ^ (w - 1)" by simp
  have fwd_fits: "fits w (?f n) \<and> fits w (\<Sum>i\<le>n. ?f i)" if "n < ?N" for n
    using bounds [OF that] assms(3) pos unfolding fits_def by linarith
  have neg_sum: "(\<Sum>i\<le>n. iterators b ! i - iterators ?a ! i) = - (\<Sum>i\<le>n. ?f i)" for n
    by (rule sum_diff_swap)
  have neg_total: "(\<Sum>i<?N. iterators b ! i - iterators ?a ! i) = - int d"
    using sum_f sum_diff_swap [of "\<lambda>i. iterators b ! i" "\<lambda>i. iterators ?a ! i" "{..<?N}"] by simp
  have bwd_fits: "fits w (iterators b ! n - iterators ?a ! n)
      \<and> fits w (\<Sum>i\<le>n. iterators b ! i - iterators ?a ! i)" if "n < ?N" for n
    using bounds [OF that] assms(3) pos unfolding fits_def neg_sum by linarith
  have fwd: "op_distance w ?a b = Some (int d)"
    using fwd_fits sum_f len by (simp add: op_distance_def minus_its_char)
  have bwd: "op_distance w b ?a = Some (- int d)"
    using bwd_fits neg_total by (simp add: op_distance_def minus_its_char)
  have "op_distance w x y
           = (if \<forall>n<length (iterators x).
                    fits w (iterators x ! n - iterators y ! n)
                  \<and> fits w (\<Sum>i\<le>n. iterators x ! i - iterators y ! i)
              then Some (\<Sum>i<length (iterators x). iterators x ! i - iterators y ! i)
              else None)"
    unfolding op_distance_def by (rule minus_its_char)
  with fwd bwd show ?thesis by blast
qed

theorem distance_consistency_witness:
  "op_distance 64 \<lparr>iterators = [2, 1], begins = [0, 0], ends = [2, 3]\<rparr>
                  \<lparr>iterators = [0, 0], begins = [0, 0], ends = [2, 3]\<rparr> = Some 3
   \<and> op_distance 64 \<lparr>iterators = [0, 0], begins = [0, 0], ends = [2, 3]\<rparr>
                    \<lparr>iterators = [2, 1], begins = [0, 0], ends = [2, 3]\<rparr> = Some (- 3)"
proof -
  let ?b = "\<lparr>iterators = [0, 0], begins = [0, 0], ends = [2, 3]\<rparr>"
  have steps: "(op_inc ^^ 3) ?b = \<lparr>iterators = [2, 1], begins = [0, 0], ends = [2, 3]\<rparr>"
    by (simp add: op_inc_def numeral_3_eq_3 PlusPlus.simps)
  have h1: "iterators ?b \<noteq> []" by simp
  have "op_ne ((op_inc ^^ 0) ?b) (?b\<lparr>iterators := ends ?b\<rparr>)"
    and "op_ne ((op_inc ^^ 1) ?b) (?b\<lparr>iterators := ends ?b\<rparr>)"
    and "op_ne ((op_inc ^^ 2) ?b) (?b\<lparr>iterators := ends ?b\<rparr>)"
    by (simp_all add: numeral_2_eq_2 op_inc_def op_ne_def PlusPlus.simps NotEqual.simps)
  then have h2: "\<forall>j<3. op_ne ((op_inc ^^ j) ?b) (?b\<lparr>iterators := ends ?b\<rparr>)"
    by (simp only: less_Suc_eq numeral_3_eq_3 numeral_2_eq_2 One_nat_def) blast
  have h3: "int 3 < 2 ^ (64 - 1)" by simp
  from distance_consistency [OF h1 h2 h3, of ?b ?b] steps show ?thesis by simp
qed

section \<open>Termination of the jumps\<close>

text \<open>
  C9. \<^verbatim>\<open>operator+=\<close> and \<^verbatim>\<open>operator-=\<close> return on every composite cursor and every
  offset, whatever the member lengths (zero-length members included): \<^verbatim>\<open>PlusIs\<close> recurses
  on a growing index up to the last one, \<^verbatim>\<open>MinIs\<close> on a shrinking index down to \<open>0\<close>, and
  the offset, bumped or not, never decides whether the recursion goes on.
\<close>

theorem jumps_terminate:
  "(\<exists>r. op_plus_assign c k = Some r) \<and> (\<exists>r. op_minus_assign c k = Some r)"
proof
  have "\<exists>r. PlusIs 0 (iterators c) (ends c) k = Some r"
    by (rule PlusIs_returns [OF refl]) simp
  then show "\<exists>r. op_plus_assign c k = Some r" by (auto simp: op_plus_assign_def)
next
  have "\<exists>r. MinIs (length (iterators c) - 1) (iterators c) (begins c) (ends c) k = Some r"
    by (rule MinIs_returns)
  then show "\<exists>r. op_minus_assign c k = Some r" by (auto simp: op_minus_assign_def)
qed

section \<open>The jumps against the steps\<close>

text \<open>
  C1, at the begin-state of the members \<open>[x, y]\<close> and \<open>[p, q, r]\<close> with \<open>k = 3\<close>: three
  \<^verbatim>\<open>operator++\<close> reach the positions \<open>[2, 1]\<close>, while \<^verbatim>\<open>operator+= 3\<close> stops at \<open>[2, 0]\<close>,
  because \<^verbatim>\<open>PlusIs\<close> returns at the last index without moving the last member.
\<close>

theorem jump_forward_skips_last_member:
  "(op_inc ^^ 3) \<lparr>iterators = [0, 0], begins = [0, 0], ends = [2, 3]\<rparr>
     = \<lparr>iterators = [2, 1], begins = [0, 0], ends = [2, 3]\<rparr>
   \<and> op_plus_assign \<lparr>iterators = [0, 0], begins = [0, 0], ends = [2, 3]\<rparr> 3
     = Some \<lparr>iterators = [2, 0], begins = [0, 0], ends = [2, 3]\<rparr>"
  by (simp add: op_plus_assign_def PlusIs.simps op_inc_def numeral_3_eq_3 PlusPlus.simps)

text \<open>
  C2, at the begin-state of three members of lengths \<open>1, 3, 1\<close> with \<open>k = 3\<close>:
  \<^verbatim>\<open>operator+= 3\<close> reaches \<open>[1, 2, 0]\<close>, and \<^verbatim>\<open>operator-= 3\<close> from there gives
  \<open>[-1, 0, 0]\<close> and not the begin-state \<open>[0, 0, 0]\<close>: \<^verbatim>\<open>MinIs\<close> measures the distance of
  member 1 to its end (\<open>1\<close>) where the distance to its begin (\<open>2\<close>) is consumed.
\<close>

theorem jump_back_measures_distance_to_end:
  "op_plus_assign \<lparr>iterators = [0, 0, 0], begins = [0, 0, 0], ends = [1, 3, 1]\<rparr> 3
     = Some \<lparr>iterators = [1, 2, 0], begins = [0, 0, 0], ends = [1, 3, 1]\<rparr>
   \<and> op_minus_assign \<lparr>iterators = [1, 2, 0], begins = [0, 0, 0], ends = [1, 3, 1]\<rparr> 3
     = Some \<lparr>iterators = [- 1, 0, 0], begins = [0, 0, 0], ends = [1, 3, 1]\<rparr>"
  by (simp add: op_plus_assign_def op_minus_assign_def PlusIs.simps MinIs.simps)

section \<open>Post-decrement\<close>

text \<open>
  C10, at the cursor \<open>[1, 0]\<close> of the members \<open>[x, y]\<close> and \<open>[p, q, r]\<close>: \<^verbatim>\<open>operator--()\<close>
  steps back to \<open>[0, 0]\<close>; \<^verbatim>\<open>operator--(int)\<close> returns the prior value and leaves the
  cursor at \<open>[2, 0]\<close>, one step forward.
\<close>

theorem post_decrement_steps_forward:
  "op_dec \<lparr>iterators = [1, 0], begins = [0, 0], ends = [2, 3]\<rparr>
     = \<lparr>iterators = [0, 0], begins = [0, 0], ends = [2, 3]\<rparr>
   \<and> op_post_dec \<lparr>iterators = [1, 0], begins = [0, 0], ends = [2, 3]\<rparr>
     = (\<lparr>iterators = [1, 0], begins = [0, 0], ends = [2, 3]\<rparr>,
        \<lparr>iterators = [2, 0], begins = [0, 0], ends = [2, 3]\<rparr>)"
  by (simp add: op_dec_def op_post_dec_def op_inc_def PlusPlus.simps)

end
